theory Spec2Isabelle
  imports Complex_Main
begin

section \<open>Coherent frequency resolver\<close>

text \<open>
  Floating-point numbers of the source are modelled as exact reals, Python integers as
  \<open>int\<close> and the elements of \<^verbatim>\<open>np.arange(1, maxprime)\<close>, which are positive, as \<open>nat\<close>.

  \<^verbatim>\<open>
  def is_prime(self,n):
      if n % 2 == 0 and n > 2:
          return False
      return all(n % i for i in range(3, int(np.sqrt(n)) + 1, 2))
  \<close>
\<close>

definition int_sqrt :: "nat \<Rightarrow> nat" where
  \<comment> \<open>\<^verbatim>\<open>int(np.sqrt(n))\<close>: the square root, truncated.\<close>
  "int_sqrt n = nat \<lfloor>sqrt (real n)\<rfloor>"

fun sqrt_search :: "nat \<Rightarrow> nat \<Rightarrow> nat" where
  \<comment> \<open>The greatest \<open>m \<le> k\<close> with \<open>m * m \<le> n\<close>; it computes \<open>int_sqrt\<close> (lemma \<open>int_sqrt_code\<close>).\<close>
  "sqrt_search n 0 = 0"
| "sqrt_search n (Suc k) = (if Suc k * Suc k \<le> n then Suc k else sqrt_search n k)"

definition py_range3 :: "nat \<Rightarrow> nat list" where
  \<comment> \<open>\<^verbatim>\<open>range(3, stop, 2)\<close>\<close>
  "py_range3 stop = map (\<lambda>k. 3 + 2 * k) [0..<(stop - 2) div 2]"

definition is_prime :: "nat \<Rightarrow> bool" where
  "is_prime n =
     (if n mod 2 = 0 \<and> n > 2 then False
      else list_all (\<lambda>i. n mod i \<noteq> 0) (py_range3 (int_sqrt n + 1)))"

text \<open>
  \<^verbatim>\<open>
  def get_coherent_fin(self,fs,fin,nsamp):
      success = False
      maxprime = 2**5
      while not success:
          try:
              a = np.arange(1, maxprime)
              foo = np.vectorize(self.is_prime)
              pbools = foo(a)
              primes = np.extract(pbools, a)
              window = np.floor(nsamp*fin/fs);
              window = primes[np.where(primes >= window)[0][0]];
              ratio = window/nsamp;
              success = True
          except:
              maxprime *= 2
      return ratio*fs
  \<close>
  The body of the \<^verbatim>\<open>try\<close> is \<open>coherent_try\<close>: \<open>None\<close> stands for an exception, which the
  bare \<^verbatim>\<open>except\<close> swallows whatever it is. Two exceptions can occur: the division by a
  zero \<open>fs\<close>, and the index \<^verbatim>\<open>[0]\<close> into an empty selection. The loop may run forever, so
  it is a partial function into \<open>option\<close>, where \<open>None\<close> is the loop that never exits.
  For \<open>nsamp = 0\<close> numpy returns an infinity, which the reals do not have: the results
  below are about \<open>nsamp \<noteq> 0\<close>.
\<close>

definition primes_below :: "nat \<Rightarrow> nat list" where
  \<comment> \<open>\<^verbatim>\<open>np.extract(foo(a), a)\<close> for \<^verbatim>\<open>a = np.arange(1, maxprime)\<close>\<close>
  "primes_below maxprime = filter is_prime [1..<maxprime]"

definition window_of :: "real \<Rightarrow> real \<Rightarrow> int \<Rightarrow> int" where
  \<comment> \<open>\<^verbatim>\<open>np.floor(nsamp*fin/fs)\<close>\<close>
  "window_of fs fin nsamp = \<lfloor>of_int nsamp * fin / fs\<rfloor>"

definition coherent_try :: "real \<Rightarrow> real \<Rightarrow> int \<Rightarrow> nat \<Rightarrow> nat option" where
  \<comment> \<open>The prime picked by one pass of the \<^verbatim>\<open>try\<close> body.\<close>
  "coherent_try fs fin nsamp maxprime =
     (if fs = 0 then None
      else case filter (\<lambda>p. window_of fs fin nsamp \<le> int p) (primes_below maxprime) of
             [] \<Rightarrow> None
           | p # _ \<Rightarrow> Some p)"

partial_function (option) coherent_loop :: "real \<Rightarrow> real \<Rightarrow> int \<Rightarrow> nat \<Rightarrow> nat option" where
  "coherent_loop fs fin nsamp maxprime =
     (case coherent_try fs fin nsamp maxprime of
        Some p \<Rightarrow> Some p
      | None \<Rightarrow> coherent_loop fs fin nsamp (maxprime * 2))"

definition get_coherent_fin :: "real \<Rightarrow> real \<Rightarrow> int \<Rightarrow> real option" where
  "get_coherent_fin fs fin nsamp =
     map_option (\<lambda>p. (real p / of_int nsamp) * fs) (coherent_loop fs fin nsamp (2 ^ 5))"

definition prime_number :: "nat \<Rightarrow> bool" where
  \<comment> \<open>What a prime is, for the statements about the resolver.\<close>
  "prime_number p = (2 \<le> p \<and> list_all (\<lambda>d. \<not> d dvd p) [2..<p])"

definition cycles :: "real \<Rightarrow> int \<Rightarrow> real \<Rightarrow> int" where
  \<comment> \<open>\<open>round(nsamp*f'/fs)\<close>, the number of cycles of \<open>f'\<close> in the window.\<close>
  "cycles fs nsamp f' = round (of_int nsamp * f' / fs)"

section \<open>The coherent frequency resolver: primality test and search\<close>

subsection \<open>The truncated square root and the primality test\<close>

lemma sqrt_search_sq: "sqrt_search n k * sqrt_search n k \<le> n"
  by (induction k) auto

lemma sqrt_search_le: "sqrt_search n k \<le> k"
  by (induction k) auto

lemma sqrt_search_greatest: "m \<le> k \<Longrightarrow> m * m \<le> n \<Longrightarrow> m \<le> sqrt_search n k"
proof (induction k)
  case 0
  then show ?case by simp
next
  case (Suc k)
  show ?case
  proof (cases "m = Suc k")
    case True
    with Suc.prems show ?thesis by simp
  next
    case False
    with Suc.prems have "m \<le> k" by simp
    from Suc.IH [OF this Suc.prems(2)] show ?thesis
      using sqrt_search_le [of n k] by auto
  qed
qed

lemma int_sqrt_unique:
  assumes "k * k \<le> n" and "n < Suc k * Suc k"
  shows "int_sqrt n = k"
proof -
  have "real k * real k \<le> real n"
    using assms(1) by (metis of_nat_le_iff of_nat_mult)
  then have "(real k)\<^sup>2 \<le> real n" by (simp add: power2_eq_square)
  then have lo: "real k \<le> sqrt (real n)"
    by (simp add: real_le_rsqrt)
  have "real n < real (Suc k) * real (Suc k)"
    using assms(2) by (metis of_nat_less_iff of_nat_mult)
  then have "real n < (real (Suc k))\<^sup>2" by (simp add: power2_eq_square)
  then have hi: "sqrt (real n) < real (Suc k)"
    by (simp add: real_less_lsqrt)
  have "\<lfloor>sqrt (real n)\<rfloor> = int k"
    using lo hi by (simp add: floor_eq_iff)
  then show ?thesis by (simp add: int_sqrt_def)
qed

lemma int_sqrt_code: "int_sqrt n = sqrt_search n n"
proof (rule int_sqrt_unique)
  show "sqrt_search n n * sqrt_search n n \<le> n" by (rule sqrt_search_sq)
  show "n < Suc (sqrt_search n n) * Suc (sqrt_search n n)"
  proof (rule ccontr)
    assume "\<not> n < Suc (sqrt_search n n) * Suc (sqrt_search n n)"
    then have sq: "Suc (sqrt_search n n) * Suc (sqrt_search n n) \<le> n" by simp
    then have "Suc (sqrt_search n n) \<le> n"
      by (metis le_square le_trans)
    from sqrt_search_greatest [OF this sq] show False by simp
  qed
qed

lemma int_sqrt_sq: "int_sqrt n * int_sqrt n \<le> n"
  by (simp add: int_sqrt_code sqrt_search_sq)

lemma int_sqrt_greatest: "m * m \<le> n \<Longrightarrow> m \<le> int_sqrt n"
proof -
  assume sq: "m * m \<le> n"
  then have "m \<le> n" by (metis le_square le_trans)
  from sqrt_search_greatest [OF this sq] show ?thesis by (simp add: int_sqrt_code)
qed

lemma set_py_range3: "set (py_range3 s) = {i. 3 \<le> i \<and> i < s \<and> odd i}"
proof (rule set_eqI, rule iffI)
  fix i assume "i \<in> set (py_range3 s)"
  then obtain k where k: "i = 3 + 2 * k" "k < (s - 2) div 2"
    by (auto simp: py_range3_def)
  then show "i \<in> {i. 3 \<le> i \<and> i < s \<and> odd i}" by auto
next
  fix i assume "i \<in> {i. 3 \<le> i \<and> i < s \<and> odd i}"
  then have i: "3 \<le> i" "i < s" "odd i" by auto
  then obtain j where j: "i = 2 * j + 1" by (auto elim: oddE)
  with i have "1 \<le> j" by simp
  then have "i = 3 + 2 * (j - 1)" using j by simp
  moreover have "j - 1 < (s - 2) div 2" using i j by auto
  ultimately show "i \<in> set (py_range3 s)"
    by (auto simp: py_range3_def)
qed

lemma is_prime_iff:
  "is_prime n \<longleftrightarrow> \<not> (even n \<and> 2 < n) \<and> (\<forall>i. 3 \<le> i \<and> i * i \<le> n \<and> odd i \<longrightarrow> \<not> i dvd n)"
proof -
  have "(\<forall>i\<in>set (py_range3 (int_sqrt n + 1)). n mod i \<noteq> 0)
        \<longleftrightarrow> (\<forall>i. 3 \<le> i \<and> i * i \<le> n \<and> odd i \<longrightarrow> \<not> i dvd n)"
  proof (intro iffI allI impI ballI)
    fix i assume h: "\<forall>i\<in>set (py_range3 (int_sqrt n + 1)). n mod i \<noteq> 0"
      and i: "3 \<le> i \<and> i * i \<le> n \<and> odd i"
    then have "i \<le> int_sqrt n" using int_sqrt_greatest by blast
    with i have "i \<in> set (py_range3 (int_sqrt n + 1))" by (simp add: set_py_range3)
    with h show "\<not> i dvd n" by (auto simp: dvd_eq_mod_eq_0)
  next
    fix i assume h: "\<forall>i. 3 \<le> i \<and> i * i \<le> n \<and> odd i \<longrightarrow> \<not> i dvd n"
      and i: "i \<in> set (py_range3 (int_sqrt n + 1))"
    then have i3: "3 \<le> i" "i \<le> int_sqrt n" "odd i" by (auto simp: set_py_range3)
    then have "i * i \<le> int_sqrt n * int_sqrt n" by (simp add: mult_le_mono)
    then have "i * i \<le> n" using int_sqrt_sq [of n] by linarith
    with h i3 show "n mod i \<noteq> 0" by (auto simp: dvd_eq_mod_eq_0)
  qed
  then show ?thesis
    by (auto simp: is_prime_def list_all_iff)
qed

lemma is_prime_1: "is_prime 1"
  by (simp add: is_prime_iff)

lemma prime_number_iff:
  "prime_number p \<longleftrightarrow> 2 \<le> p \<and> (\<forall>d. 2 \<le> d \<and> d < p \<longrightarrow> \<not> d dvd p)"
  by (auto simp: prime_number_def list_all_iff)

lemma not_prime_number_1: "\<not> prime_number 1"
  by (simp add: prime_number_iff)

lemma prime_number_is_prime:
  assumes "prime_number p"
  shows "is_prime p"
proof -
  from assms have p2: "2 \<le> p" and nd: "\<And>d. 2 \<le> d \<Longrightarrow> d < p \<Longrightarrow> \<not> d dvd p"
    by (auto simp: prime_number_iff)
  have "\<not> (even p \<and> 2 < p)" using nd [of 2] by auto
  moreover have "\<not> i dvd p" if i: "3 \<le> i \<and> i * i \<le> p \<and> odd i" for i
  proof -
    from i have "i * 3 \<le> i * i" by (simp add: mult_le_mono)
    with i have "i < p" by linarith
    with nd [of i] i show ?thesis by simp
  qed
  ultimately show ?thesis by (simp add: is_prime_iff)
qed

lemma is_prime_prime_number:
  assumes "is_prime n" and "2 \<le> n"
  shows "prime_number n"
proof (rule ccontr)
  assume "\<not> prime_number n"
  with assms(2) obtain d where d: "2 \<le> d" "d < n" "d dvd n"
    by (auto simp: prime_number_iff)
  then obtain e where e: "n = d * e" by (auto simp: dvd_def)
  with d have e2: "2 \<le> e"
    by (cases "e = 0 \<or> e = 1") auto
  define m where "m = min d e"
  have m2: "2 \<le> m" using d e2 by (simp add: m_def)
  have mdvd: "m dvd n" using e by (auto simp: m_def min_def)
  have "m * m \<le> d * e" by (intro mult_le_mono) (simp_all add: m_def)
  then have msq: "m * m \<le> n" using e by simp
  from assms(1) have ev: "\<not> (even n \<and> 2 < n)"
    and od: "\<And>i. 3 \<le> i \<Longrightarrow> i * i \<le> n \<Longrightarrow> odd i \<Longrightarrow> \<not> i dvd n"
    by (auto simp: is_prime_iff)
  have "2 < n" using d by simp
  with ev have oddn: "odd n" by simp
  with mdvd have "odd m" by (auto elim: dvdE)
  with m2 have "3 \<le> m" by (cases "m = 2") auto
  from od [OF this msq \<open>odd m\<close>] mdvd show False by simp
qed

lemma prime_divisor_exists: "2 \<le> n \<Longrightarrow> \<exists>p. prime_number p \<and> p dvd n"
proof (induction n rule: less_induct)
  case (less n)
  show ?case
  proof (cases "prime_number n")
    case True
    then show ?thesis by auto
  next
    case False
    with less.prems obtain d where d: "2 \<le> d" "d < n" "d dvd n"
      by (auto simp: prime_number_iff)
    from less.IH [OF d(2) d(1)] obtain p where "prime_number p" "p dvd d" by auto
    with d(3) have "p dvd n" by (rule_tac dvd_trans)
    with \<open>prime_number p\<close> show ?thesis by auto
  qed
qed

lemma prime_number_above: "\<exists>p. prime_number p \<and> n < p"
proof -
  have "2 \<le> fact n + (1::nat)" by (simp add: Suc_le_eq)
  from prime_divisor_exists [OF this] obtain p
    where p: "prime_number p" "p dvd fact n + 1" by auto
  have "n < p"
  proof (rule ccontr)
    assume "\<not> n < p"
    then have "p \<le> n" by simp
    moreover from p(1) have "1 \<le> p" by (simp add: prime_number_iff)
    ultimately have "p dvd fact n" by (simp add: dvd_fact)
    with p(2) have "p dvd (fact n + 1) - fact n" by (rule dvd_diff_nat)
    then have "p dvd 1" by simp
    with p(1) show False by (simp add: prime_number_iff)
  qed
  with p(1) show ?thesis by auto
qed

subsection \<open>The search loop\<close>

lemma coherent_try_Some:
  "coherent_try fs fin nsamp m = Some p \<longleftrightarrow>
     fs \<noteq> 0 \<and> (\<exists>ps. filter (\<lambda>p. window_of fs fin nsamp \<le> int p) (primes_below m) = p # ps)"
  by (auto simp: coherent_try_def split: list.splits)

lemma filter_upt_head:
  assumes "filter P [a..<b] = x # xs"
  shows "a \<le> x \<and> x < b \<and> P x \<and> (\<forall>y. a \<le> y \<and> y < x \<longrightarrow> \<not> P y)"
  using assms
proof (induction "b - a" arbitrary: a)
  case 0
  then show ?case by simp
next
  case (Suc k)
  then have ab: "a < b" by simp
  then have upt: "[a..<b] = a # [Suc a..<b]" by (simp add: upt_conv_Cons)
  show ?case
  proof (cases "P a")
    case True
    with Suc.prems upt have "x = a" by simp
    with True ab show ?thesis by auto
  next
    case False
    with Suc.prems upt have f: "filter P [Suc a..<b] = x # xs" by simp
    have "k = b - Suc a" using Suc.hyps(2) by simp
    from Suc.hyps(1) [OF this f]
    have ih: "Suc a \<le> x" "x < b" "P x" "\<And>y. Suc a \<le> y \<Longrightarrow> y < x \<Longrightarrow> \<not> P y"
      by auto
    have "\<not> P y" if "a \<le> y \<and> y < x" for y
    proof (cases "y = a")
      case True
      with False show ?thesis by simp
    next
      case False
      with that have "Suc a \<le> y" by simp
      with ih(4) that show ?thesis by simp
    qed
    with ih show ?thesis by auto
  qed
qed

lemma coherent_try_least:
  assumes "coherent_try fs fin nsamp m = Some p"
  shows "1 \<le> p \<and> p < m \<and> is_prime p \<and> window_of fs fin nsamp \<le> int p \<and>
         (\<forall>q. 1 \<le> q \<and> is_prime q \<and> window_of fs fin nsamp \<le> int q \<longrightarrow> p \<le> q)"
proof -
  from assms obtain ps where
    "filter (\<lambda>p. window_of fs fin nsamp \<le> int p) (filter is_prime [1..<m]) = p # ps"
    by (auto simp: coherent_try_Some primes_below_def)
  then have "filter (\<lambda>p. is_prime p \<and> window_of fs fin nsamp \<le> int p) [1..<m] = p # ps"
    by (simp add: conj_commute)
  from filter_upt_head [OF this]
  have h: "1 \<le> p" "p < m" "is_prime p" "window_of fs fin nsamp \<le> int p"
    "\<And>y. 1 \<le> y \<Longrightarrow> y < p \<Longrightarrow> \<not> (is_prime y \<and> window_of fs fin nsamp \<le> int y)"
    by auto
  have "p \<le> q" if q: "1 \<le> q \<and> is_prime q \<and> window_of fs fin nsamp \<le> int q" for q
  proof (rule ccontr)
    assume "\<not> p \<le> q"
    then have "q < p" by simp
    with h(5) [of q] q show False by simp
  qed
  with h show ?thesis by simp
qed

lemma coherent_try_succeeds:
  assumes "fs \<noteq> 0" and "is_prime q" and "1 \<le> q" and "q < m" and "window_of fs fin nsamp \<le> int q"
  shows "\<exists>p. coherent_try fs fin nsamp m = Some p"
proof -
  have "q \<in> set (filter (\<lambda>p. window_of fs fin nsamp \<le> int p) (primes_below m))"
    using assms by (simp add: primes_below_def)
  then have "filter (\<lambda>p. window_of fs fin nsamp \<le> int p) (primes_below m) \<noteq> []"
    by (auto simp: filter_empty_conv)
  with assms(1) show ?thesis
    by (auto simp: coherent_try_def split: list.splits)
qed

lemma coherent_loop_reaches:
  assumes "fs \<noteq> 0" and "is_prime q" and "1 \<le> q" and "window_of fs fin nsamp \<le> int q" and "0 < m"
  shows "\<exists>k p. coherent_loop fs fin nsamp m = Some p \<and> coherent_try fs fin nsamp (m * 2 ^ k) = Some p
           \<and> (\<forall>j<k. coherent_try fs fin nsamp (m * 2 ^ j) = None)"
  using assms(5)
proof (induction "Suc q - m" arbitrary: m rule: less_induct)
  case less
  show ?case
  proof (cases "coherent_try fs fin nsamp m")
    case (Some p)
    then have "coherent_loop fs fin nsamp m = Some p"
      by (subst coherent_loop.simps) simp
    with Some show ?thesis by (intro exI [of _ 0] exI [of _ p]) simp
  next
    case None
    have "\<not> q < m"
      using coherent_try_succeeds [OF assms(1,2,3) _ assms(4), of m] None by auto
    then have "Suc q - m * 2 < Suc q - m" using less.prems by simp
    moreover have "0 < m * 2" using less.prems by simp
    ultimately obtain k p where kp: "coherent_loop fs fin nsamp (m * 2) = Some p"
      "coherent_try fs fin nsamp (m * 2 * 2 ^ k) = Some p"
      "\<forall>j<k. coherent_try fs fin nsamp (m * 2 * 2 ^ j) = None"
      using less.hyps [of "m * 2"] by blast
    have loop: "coherent_loop fs fin nsamp m = Some p"
      using None kp(1) by (subst coherent_loop.simps) simp
    have "\<forall>j<Suc k. coherent_try fs fin nsamp (m * 2 ^ j) = None"
    proof (intro allI impI)
      fix j assume "j < Suc k"
      show "coherent_try fs fin nsamp (m * 2 ^ j) = None"
      proof (cases j)
        case 0
        with None show ?thesis by simp
      next
        case (Suc i)
        with \<open>j < Suc k\<close> kp(3) show ?thesis by (simp add: mult.assoc)
      qed
    qed
    with loop kp(2) show ?thesis
      by (intro exI [of _ "Suc k"] exI [of _ p]) (simp add: mult.assoc)
  qed
qed

lemma coherent_loop_fs0_aux:
  assumes "coherent_loop fs fin nsamp m = Some y"
  shows "fs \<noteq> 0"
proof (rule coherent_loop.raw_induct [where P = "\<lambda>fs _ _ _ _. fs \<noteq> 0", OF _ assms])
  fix loop :: "real \<Rightarrow> real \<Rightarrow> int \<Rightarrow> nat \<Rightarrow> nat option" and fs fin nsamp m y
  assume ih: "\<And>fs fin nsamp m y. loop fs fin nsamp m = Some y \<Longrightarrow> fs \<noteq> 0"
    and step: "(case coherent_try fs fin nsamp m of None \<Rightarrow> loop fs fin nsamp (m * 2) | Some p \<Rightarrow> Some p) = Some y"
  show "fs \<noteq> 0"
  proof (cases "coherent_try fs fin nsamp m")
    case None
    with step have "loop fs fin nsamp (m * 2) = Some y" by simp
    then show ?thesis by (rule ih)
  next
    case (Some p)
    then show ?thesis by (auto simp: coherent_try_def split: if_splits)
  qed
qed

lemma coherent_loop_fs0: "coherent_loop 0 fin nsamp m = None"
  using coherent_loop_fs0_aux [of 0 fin nsamp m] by (cases "coherent_loop 0 fin nsamp m") auto

lemma prime_number_2: "prime_number 2"
  by (auto simp: prime_number_iff)

lemma coherent_try_low_window:
  assumes "fs \<noteq> 0" and "window_of fs fin nsamp \<le> 1" and "1 < m"
  shows "coherent_try fs fin nsamp m = Some 1"
proof -
  have "[1..<m] = 1 # [Suc 1..<m]" using assms(3) by (simp add: upt_conv_Cons)
  then have "primes_below m = 1 # filter is_prime [Suc 1..<m]"
    using is_prime_1 by (simp add: primes_below_def)
  with assms(1,2) show ?thesis by (simp add: coherent_try_def)
qed

lemma get_coherent_fin_low_window:
  assumes "fs \<noteq> 0" and "window_of fs fin nsamp \<le> 1"
  shows "get_coherent_fin fs fin nsamp = Some ((1 / of_int nsamp) * fs)"
proof -
  have "coherent_try fs fin nsamp (2 ^ 5) = Some 1"
    using assms by (intro coherent_try_low_window) simp_all
  then have "coherent_loop fs fin nsamp (2 ^ 5) = Some 1"
    by (subst coherent_loop.simps) simp
  then show ?thesis by (simp add: get_coherent_fin_def)
qed

lemma get_coherent_fin_least:
  assumes "fs \<noteq> 0"
  shows "\<exists>p. get_coherent_fin fs fin nsamp = Some ((real p / of_int nsamp) * fs) \<and>
             1 \<le> p \<and> is_prime p \<and> window_of fs fin nsamp \<le> int p \<and>
             (\<forall>q. 1 \<le> q \<and> is_prime q \<and> window_of fs fin nsamp \<le> int q \<longrightarrow> p \<le> q)"
proof -
  obtain q0 where q0: "prime_number q0" "nat (window_of fs fin nsamp) < q0"
    using prime_number_above by blast
  then have "is_prime q0" "1 \<le> q0" "window_of fs fin nsamp \<le> int q0"
    by (auto simp: prime_number_is_prime prime_number_iff)
  from coherent_loop_reaches [OF assms this, of "2 ^ 5"]
  obtain k p where "coherent_loop fs fin nsamp (2 ^ 5) = Some p"
    "coherent_try fs fin nsamp (2 ^ 5 * 2 ^ k) = Some p" by auto
  with coherent_try_least [of fs fin nsamp "2 ^ 5 * 2 ^ k" p] show ?thesis
    by (auto simp: get_coherent_fin_def)
qed

lemma cycles_of_ratio:
  "fs \<noteq> 0 \<Longrightarrow> nsamp \<noteq> 0 \<Longrightarrow> cycles fs nsamp ((real p / of_int nsamp) * fs) = int p"
  by (simp add: cycles_def)

text \<open>For a window of at least two cycles the resolver is right.\<close>
lemma get_coherent_fin_prime:
  assumes "fs \<noteq> 0" and "nsamp \<noteq> 0" and "2 \<le> window_of fs fin nsamp"
  shows "\<exists>f'. get_coherent_fin fs fin nsamp = Some f' \<and>
           (\<exists>p. cycles fs nsamp f' = int p \<and> prime_number p \<and> window_of fs fin nsamp \<le> int p \<and>
             (\<forall>q. prime_number q \<and> window_of fs fin nsamp \<le> int q \<longrightarrow> p \<le> q))"
proof -
  from get_coherent_fin_least [OF assms(1), of fin nsamp] obtain p where
    p: "get_coherent_fin fs fin nsamp = Some ((real p / of_int nsamp) * fs)"
    "is_prime p" "window_of fs fin nsamp \<le> int p"
    "\<And>q. 1 \<le> q \<Longrightarrow> is_prime q \<Longrightarrow> window_of fs fin nsamp \<le> int q \<Longrightarrow> p \<le> q"
    by blast
  from p(3) assms(3) have "2 \<le> p" by simp
  with p(2) have pp: "prime_number p" by (rule is_prime_prime_number)
  have least: "p \<le> q" if "prime_number q \<and> window_of fs fin nsamp \<le> int q" for q
    using that p(4) [of q] by (simp add: prime_number_is_prime prime_number_iff)
  show ?thesis
    using p(1,3) pp least cycles_of_ratio [OF assms(1,2), of p] by auto
qed

text \<open>
  Claim C7. For a positive sample rate, target frequency and sample count, the search of
  \<open>get_coherent_fin\<close> returns: after finitely many doublings \<open>k\<close> of the ceiling \<open>2 ^ 5\<close>,
  all earlier passes having failed, the pass with ceiling \<open>2 ^ 5 * 2 ^ k\<close> succeeds, that
  ceiling has a prime \<open>q\<close> of at least \<open>floor (nsamp * fin / fs)\<close> below it, and the
  function returns a frequency. (Only \<open>fs \<noteq> 0\<close> is used; \<open>coherent_loop_fs0\<close> shows that
  the loop never exits when \<open>fs = 0\<close>.)
\<close>

theorem get_coherent_fin_terminates:
  assumes "0 < fs" and "0 < fin" and "0 < nsamp"
  shows "\<exists>k p q. (\<forall>j<k. coherent_try fs fin nsamp (2 ^ 5 * 2 ^ j) = None) \<and>
           coherent_try fs fin nsamp (2 ^ 5 * 2 ^ k) = Some p \<and>
           q < 2 ^ 5 * 2 ^ k \<and> prime_number q \<and> window_of fs fin nsamp \<le> int q \<and>
           get_coherent_fin fs fin nsamp = Some ((real p / of_int nsamp) * fs)"
proof -
  have fs: "fs \<noteq> 0" using assms(1) by simp
  obtain q0 where q0: "prime_number q0" "nat (window_of fs fin nsamp) < q0"
    using prime_number_above by blast
  then have "is_prime q0" "1 \<le> q0" "window_of fs fin nsamp \<le> int q0"
    by (auto simp: prime_number_is_prime prime_number_iff)
  from coherent_loop_reaches [OF fs this, of "2 ^ 5"]
  obtain k p where kp: "coherent_loop fs fin nsamp (2 ^ 5) = Some p"
    "coherent_try fs fin nsamp (2 ^ 5 * 2 ^ k) = Some p"
    "\<forall>j<k. coherent_try fs fin nsamp (2 ^ 5 * 2 ^ j) = None" by auto
  from coherent_try_least [OF kp(2)]
  have p: "1 \<le> p" "p < 2 ^ 5 * 2 ^ k" "is_prime p" "window_of fs fin nsamp \<le> int p" by auto
  have "\<exists>q. q < 2 ^ 5 * 2 ^ k \<and> prime_number q \<and> window_of fs fin nsamp \<le> int q"
  proof (cases "2 \<le> p")
    case True
    with p(3) have "prime_number p" by (rule is_prime_prime_number)
    with p show ?thesis by auto
  next
    case False
    with p(1,4) have "window_of fs fin nsamp \<le> int 2" by simp
    moreover have "(2::nat) < 2 ^ 5 * 2 ^ k"
    proof -
      have "(2::nat) < 2 ^ 5 * 1" by simp
      also have "\<dots> \<le> 2 ^ 5 * 2 ^ k" by (intro mult_le_mono) simp_all
      finally show ?thesis .
    qed
    ultimately show ?thesis using prime_number_2 by blast
  qed
  with kp show ?thesis by (auto simp: get_coherent_fin_def)
qed

theorem get_coherent_fin_terminates_witness:
  "(0::real) < 4000000000 \<and> (0::real) < 1988000000 \<and> (0::int) < 1024 \<and>
   (\<exists>k p q. (\<forall>j<k. coherent_try 4000000000 1988000000 1024 (2 ^ 5 * 2 ^ j) = None) \<and>
           coherent_try 4000000000 1988000000 1024 (2 ^ 5 * 2 ^ k) = Some p \<and>
           q < 2 ^ 5 * 2 ^ k \<and> prime_number q \<and> window_of 4000000000 1988000000 1024 \<le> int q \<and>
           get_coherent_fin 4000000000 1988000000 1024 = Some ((real p / of_int 1024) * 4000000000))"
  using get_coherent_fin_terminates [of 4000000000 1988000000 1024] by simp

text \<open>
  Claim C1. The claim asks that the number of cycles \<open>round (nsamp * f' / fs)\<close> of the
  returned frequency be a prime. \<open>is_prime\<close> accepts 1, and the candidates start at 1, so
  for a window below two cycles the resolver picks one cycle, which is no prime, although
  the prime 2 is at least the window. With the defaults of the generator
  (\<open>fs = 2e9\<close>, \<open>fin = 1e6\<close>, \<open>nsamp = 1024\<close>) the window is 0 and the result is \<open>fs / 1024\<close>.
  For a window of two cycles or more the claim holds (\<open>get_coherent_fin_prime\<close>).
\<close>

theorem get_coherent_fin_one_cycle:
  "get_coherent_fin 2000000000 1000000 1024 = Some (2000000000 / 1024) \<and>
   cycles 2000000000 1024 (2000000000 / 1024) = 1 \<and>
   window_of 2000000000 1000000 1024 = 0 \<and>
   \<not> prime_number 1 \<and> prime_number 2"
proof -
  have w: "window_of 2000000000 1000000 1024 = 0"
    by (simp add: window_of_def)
  have "get_coherent_fin 2000000000 1000000 1024 = Some ((1 / of_int 1024) * 2000000000)"
    by (rule get_coherent_fin_low_window) (simp_all add: w)
  moreover have "cycles 2000000000 1024 (2000000000 / 1024) = 1"
    by (simp add: cycles_def)
  ultimately show ?thesis
    using w not_prime_number_1 prime_number_2 by simp
qed

end
